theory Spec2Isabelle
  imports Main "HOL-Library.Sublist"
begin

section \<open>JavaScript strings and regular expressions\<close>

text \<open>
  A JavaScript string is a sequence of UTF-16 code units, and \<^verbatim>\<open>length\<close>,
  \<^verbatim>\<open>substring\<close>, \<^verbatim>\<open>trim\<close> and the regular expressions of the source all work on
  code units. A code unit is modelled by its number; the functions below only compare
  code units, they never compute with them.
\<close>

type_synonym code_unit = nat
type_synonym jsstring = "code_unit list"

definition js :: "string \<Rightarrow> jsstring" where
  "js cs = map of_char cs"

text \<open>
  The class \<^verbatim>\<open>\s\<close> of a regular expression, which is also what \<^verbatim>\<open>trim\<close> strips:
  the WhiteSpace and LineTerminator code points of ECMAScript (TAB, LF, VT, FF, CR, SP,
  NBSP, U+1680, U+2000 to U+200A, LS, PS, U+202F, U+205F, U+3000, U+FEFF).
\<close>

definition is_space :: "code_unit \<Rightarrow> bool" where
  "is_space c = (c = 9 \<or> c = 10 \<or> c = 11 \<or> c = 12 \<or> c = 13 \<or> c = 32 \<or> c = 160 \<or> c = 5760
     \<or> (8192 \<le> c \<and> c \<le> 8202) \<or> c = 8232 \<or> c = 8233 \<or> c = 8239 \<or> c = 8287
     \<or> c = 12288 \<or> c = 65279)"

definition is_digit :: "code_unit \<Rightarrow> bool" where
  "is_digit c = (48 \<le> c \<and> c \<le> 57)"

definition is_word :: "code_unit \<Rightarrow> bool" where
  "is_word c = ((97 \<le> c \<and> c \<le> 122) \<or> (65 \<le> c \<and> c \<le> 90) \<or> is_digit c \<or> c = 95)"

text \<open>
  Under the flag \<^verbatim>\<open>i\<close> (without \<^verbatim>\<open>u\<close>) two code units match when their
  canonical forms agree. Every literal of the source's patterns is ASCII, and ECMAScript's
  Canonicalize never maps a code unit from 128 on to one below 128, so against these
  literals it agrees with ASCII upper-casing.
\<close>

definition canonicalize :: "code_unit \<Rightarrow> code_unit" where
  "canonicalize c = (if 97 \<le> c \<and> c \<le> 122 then c - 32 else c)"

datatype atom =
    Chr code_unit      \<comment> \<open>a literal character\<close>
  | Space              \<comment> \<open>\<^verbatim>\<open>\s\<close>\<close>
  | Digit              \<comment> \<open>\<^verbatim>\<open>\d\<close> and \<^verbatim>\<open>[0-9]\<close>\<close>
  | Word               \<comment> \<open>\<^verbatim>\<open>\w\<close>\<close>
  | AnyChar            \<comment> \<open>\<^verbatim>\<open>[\s\S]\<close>\<close>

datatype regex =
    Eps
  | Atom atom
  | Seq regex regex
  | Alt regex regex    \<comment> \<open>\<^verbatim>\<open>r|s\<close>, the left alternative first\<close>
  | Star regex         \<comment> \<open>greedy \<^verbatim>\<open>r*\<close>\<close>
  | LazyStar regex     \<comment> \<open>lazy \<^verbatim>\<open>r*?\<close>\<close>

fun atom_ok :: "bool \<Rightarrow> atom \<Rightarrow> code_unit \<Rightarrow> bool" where
  "atom_ok ic (Chr p) c = (if ic then canonicalize c = canonicalize p else c = p)"
| "atom_ok ic Space c = is_space c"
| "atom_ok ic Digit c = is_digit c"
| "atom_ok ic Word c = is_word c"
| "atom_ok ic AnyChar c = True"

text \<open>
  The backtracking matcher, in the continuation style of the ECMAScript specification.
  \<open>matcher ic r s k\<close> matches \<open>r\<close> at the start of \<open>s\<close> and hands what is left of \<open>s\<close>
  to the continuation \<open>k\<close>; when \<open>k\<close> fails, the next way of matching \<open>r\<close> is tried, in
  the order of ECMAScript's backtracking. The result is what is left of the input behind
  the whole match. An iteration of a star that consumes nothing is rejected, as
  RepeatMatcher does.
\<close>

function matcher :: "bool \<Rightarrow> regex \<Rightarrow> jsstring \<Rightarrow> (jsstring \<Rightarrow> jsstring option) \<Rightarrow> jsstring option" where
  "matcher ic Eps s k = k s"
| "matcher ic (Atom a) s k =
     (case s of [] \<Rightarrow> None | c # t \<Rightarrow> if atom_ok ic a c then k t else None)"
| "matcher ic (Seq r1 r2) s k = matcher ic r1 s (\<lambda>t. matcher ic r2 t k)"
| "matcher ic (Alt r1 r2) s k =
     (case matcher ic r1 s k of Some e \<Rightarrow> Some e | None \<Rightarrow> matcher ic r2 s k)"
| "matcher ic (Star r) s k =
     (case matcher ic r s (\<lambda>t. if length t < length s then matcher ic (Star r) t k else None) of
        Some e \<Rightarrow> Some e
      | None \<Rightarrow> k s)"
| "matcher ic (LazyStar r) s k =
     (case k s of
        Some e \<Rightarrow> Some e
      | None \<Rightarrow> matcher ic r s (\<lambda>t. if length t < length s then matcher ic (LazyStar r) t k else None))"
  by pat_completeness auto
termination
  by (relation "inv_image (less_than <*lex*> less_than) (\<lambda>(ic, r, s, k). (size r, length s))")
     auto

text \<open>The match of \<open>r\<close> at the start of \<open>s\<close>: what is left of \<open>s\<close> behind it.\<close>

definition match_here :: "bool \<Rightarrow> regex \<Rightarrow> jsstring \<Rightarrow> jsstring option" where
  "match_here ic r s = matcher ic r s Some"

definition Plus :: "regex \<Rightarrow> regex" where
  "Plus r = Seq r (Star r)"

definition Opt :: "regex \<Rightarrow> regex" where
  "Opt r = Alt r Eps"

fun Seqs :: "regex list \<Rightarrow> regex" where
  "Seqs [] = Eps"
| "Seqs [r] = r"
| "Seqs (r # rs) = Seq r (Seqs rs)"

definition Str :: "string \<Rightarrow> regex" where
  "Str cs = Seqs (map (\<lambda>c. Atom (Chr (of_char c))) cs)"

text \<open>\<^verbatim>\<open>re.test(s)\<close> for a pattern without anchors: is there a match at some index?\<close>

fun re_test :: "bool \<Rightarrow> regex \<Rightarrow> jsstring \<Rightarrow> bool" where
  "re_test ic r [] = (match_here ic r [] \<noteq> None)"
| "re_test ic r (c # t) = (if match_here ic r (c # t) \<noteq> None then True else re_test ic r t)"

text \<open>\<^verbatim>\<open>/^r$/.test(s)\<close>: some way of matching \<open>r\<close> at index 0 consumes all of \<open>s\<close>.\<close>

definition re_test_whole :: "bool \<Rightarrow> regex \<Rightarrow> jsstring \<Rightarrow> bool" where
  "re_test_whole ic r s = (matcher ic r s (\<lambda>t. if t = [] then Some t else None) \<noteq> None)"

text \<open>
  \<^verbatim>\<open>s.replace(/r/g, rep)\<close>: the leftmost match is replaced and the search goes on
  behind it; after an empty match the next character is copied and the search goes on
  behind that character.
\<close>

function replace_all :: "bool \<Rightarrow> regex \<Rightarrow> jsstring \<Rightarrow> jsstring \<Rightarrow> jsstring" where
  "replace_all ic r rep s =
     (case match_here ic r s of
        None \<Rightarrow> (case s of [] \<Rightarrow> [] | c # t \<Rightarrow> c # replace_all ic r rep t)
      | Some m \<Rightarrow>
          if length m < length s then rep @ replace_all ic r rep m
          else (case s of [] \<Rightarrow> rep | c # t \<Rightarrow> rep @ c # replace_all ic r rep t))"
  by pat_completeness auto
termination
  by (relation "measure (\<lambda>(ic, r, rep, s). length s)") auto

text \<open>\<^verbatim>\<open>s.replace(/^r/, rep)\<close>: only a match at index 0 counts.\<close>

definition replace_at_start :: "bool \<Rightarrow> regex \<Rightarrow> jsstring \<Rightarrow> jsstring \<Rightarrow> jsstring" where
  "replace_at_start ic r rep s = (case match_here ic r s of None \<Rightarrow> s | Some m \<Rightarrow> rep @ m)"

definition trim :: "jsstring \<Rightarrow> jsstring" where
  "trim s = rev (dropWhile is_space (rev (dropWhile is_space s)))"

section \<open>The error normalizer\<close>

definition Lit :: "char \<Rightarrow> regex" where
  "Lit c = Atom (Chr (of_char c))"

text \<open>\<^verbatim>\<open>/=+\s*logs\s*=+[\s\S]*?=+/gi\<close>\<close>

definition re_logs :: regex where
  "re_logs = Seqs [Plus (Lit CHR ''=''), Star (Atom Space), Str ''logs'', Star (Atom Space),
                   Plus (Lit CHR ''=''), LazyStar (Atom AnyChar), Plus (Lit CHR ''='')]"

text \<open>\<^verbatim>\<open>/^(page|locator|browser|context)\.\w+(\.\w+)*:\s*/i\<close>, without the anchor\<close>

definition re_prefix :: regex where
  "re_prefix = Seqs [Alt (Str ''page'') (Alt (Str ''locator'') (Alt (Str ''browser'') (Str ''context''))),
                     Lit CHR ''.'', Plus (Atom Word),
                     Star (Seq (Lit CHR ''.'') (Plus (Atom Word))),
                     Lit CHR '':'', Star (Atom Space)]"

text \<open>\<^verbatim>\<open>/timeout\s*\d+ms\s*exceeded/i\<close>\<close>

definition re_timeout :: regex where
  "re_timeout = Seqs [Str ''timeout'', Star (Atom Space), Plus (Atom Digit), Str ''ms'',
                      Star (Atom Space), Str ''exceeded'']"

text \<open>\<^verbatim>\<open>/secure\.simplepractice/i\<close>\<close>

definition re_secure :: regex where
  "re_secure = Str ''secure.simplepractice''"

text \<open>\<^verbatim>\<open>/\n+/g\<close> and \<^verbatim>\<open>/\s{2,}/g\<close>\<close>

definition re_newlines :: regex where
  "re_newlines = Plus (Atom (Chr 10))"

definition re_spaces :: regex where
  "re_spaces = Seqs [Atom Space, Atom Space, Star (Atom Space)]"

text \<open>
  The first two statements of \<^verbatim>\<open>cleanErrorMessage\<close>: the log block and the
  \<^verbatim>\<open>page.xxx:\<close> prefix are removed, each followed by \<^verbatim>\<open>trim()\<close>.
\<close>

definition strip_noise :: "jsstring \<Rightarrow> jsstring" where
  "strip_noise raw =
     (let msg = trim (replace_all True re_logs [] raw)
      in trim (replace_at_start True re_prefix [] msg))"

text \<open>\<^verbatim>\<open>msg.replace(/\n+/g, ' ').replace(/\s{2,}/g, ' ').trim()\<close>\<close>

definition collapse_whitespace :: "jsstring \<Rightarrow> jsstring" where
  "collapse_whitespace msg =
     trim (replace_all False re_spaces (js '' '') (replace_all False re_newlines (js '' '') msg))"

definition msg_login :: jsstring where
  "msg_login = js ''Login timed out. SimplePractice may be slow or credentials may be incorrect.''"

definition msg_page_load :: jsstring where
  "msg_page_load = js ''Page took too long to load. SimplePractice may be experiencing slowness.''"

definition msg_search :: jsstring where
  "msg_search = js ''Client search timed out. The search box did not appear in time.''"

definition msg_form :: jsstring where
  "msg_form = js ''Appointment form did not load in time.''"

definition msg_timeout :: jsstring where
  "msg_timeout = js ''Operation timed out. SimplePractice may be slow or unresponsive. Please try again.''"

definition msg_fallback :: jsstring where
  "msg_fallback = js ''An unexpected error occurred during the reschedule process.''"

definition cleanErrorMessage :: "jsstring \<Rightarrow> jsstring" where
  "cleanErrorMessage raw =
     (let msg = strip_noise raw in
      if re_test True re_timeout msg then
        (if re_test True (Str ''waitForURL'') raw \<or> re_test True re_secure raw then msg_login
         else if re_test True (Str ''waitForLoadState'') raw then msg_page_load
         else if re_test True (Str ''waitFor'') raw \<and> re_test True (Str ''search'') raw
           then msg_search
         else if re_test True (Str ''waitFor'') raw \<and> re_test True (Str ''start date'') raw
           then msg_form
         else msg_timeout)
      else if re_test True (Str ''no upcoming appointments'') msg then msg
      else if re_test True (Str ''no clickable appointment'') msg then msg
      else if re_test True (Str ''no appointment found matching'') msg then msg
      else
        (let msg = collapse_whitespace msg;
             msg = (if length msg > 200 then take 200 msg @ js ''...'' else msg)
         in if msg = [] then msg_fallback else msg))"

text \<open>
  Has one of the category patterns of \<^verbatim>\<open>cleanErrorMessage\<close> matched? Then the
  function has returned before it collapses white space and caps the length.
\<close>

definition category_matched :: "jsstring \<Rightarrow> bool" where
  "category_matched raw =
     (re_test True re_timeout (strip_noise raw)
      \<or> re_test True (Str ''no upcoming appointments'') (strip_noise raw)
      \<or> re_test True (Str ''no clickable appointment'') (strip_noise raw)
      \<or> re_test True (Str ''no appointment found matching'') (strip_noise raw))"

definition is_line_terminator :: "code_unit \<Rightarrow> bool" where
  "is_line_terminator c = (c = 10 \<or> c = 13 \<or> c = 8232 \<or> c = 8233)"

definition single_line :: "jsstring \<Rightarrow> bool" where
  "single_line s = (filter is_line_terminator s = [])"

text \<open>The example input of the specification's testable properties.\<close>

definition spec_example :: jsstring where
  "spec_example = js ''Timeout 30000ms exceeded waiting for locator('...Search...')''"

text \<open>Four inputs of more than 200 code units.\<close>

definition long_timeout :: jsstring where
  "long_timeout = js ''Timeout 30000ms exceeded '' @ replicate 200 120"

definition long_blanks :: jsstring where
  "long_blanks = replicate 100 120 @ [32, 32] @ replicate 99 120"

definition long_no_upcoming :: jsstring where
  "long_no_upcoming = js ''No upcoming appointments found for client '' @ replicate 200 120"

definition long_plain :: jsstring where
  "long_plain = replicate 201 120"

section \<open>The request queue of the HTTP server\<close>

text \<open>
  The server runs on one thread: every callback runs to its end, or to its first
  \<^verbatim>\<open>await\<close>, before the next one starts. One \<open>event\<close> below is one such callback:
  a request reaching the POST handler, a queue timer firing, the promise of
  \<^verbatim>\<open>rescheduleAppointment\<close> settling, a termination signal. Timers and the runner may
  take any time, so the events may come in any order.

  A \<^verbatim>\<open>QueueItem\<close> is an object: the queue, the timer's closure and the suspended
  \<^verbatim>\<open>processQueue\<close> all hold the same one. Objects live in \<open>heap\<close> and are named by
  a reference; \<open>nextRef\<close> is the next fresh one, and a reference not yet in use holds a
  blank item that nothing reads. The \<^verbatim>\<open>resolve\<close> function of an item
  is named by the item's reference, and every call of it is recorded in \<open>trace\<close>. The
  counters are JavaScript numbers, exact for every count below \<open>2 ^ 53\<close>; they are
  modelled as natural numbers. Log output is not modelled, and one clock reading serves
  a whole event.
\<close>

definition MAX_QUEUE_SIZE :: nat where
  "MAX_QUEUE_SIZE = 50"

type_synonym time = int
type_synonym ref = nat

record RescheduleParams =
  clientSearch :: jsstring
  newDate :: jsstring
  newTime :: jsstring
  currentAppointmentDate :: "jsstring option"

record RescheduleResult =
  result_success :: bool
  result_message :: jsstring

record QueueItem =
  item_id :: jsstring
  params :: RescheduleParams
  queuedAt :: time
  timedOut :: bool

record RunResult =
  success :: bool
  requestId :: jsstring
  message :: "jsstring option"
  error :: "jsstring option"
  duration :: int

record LastResult =
  last_run :: RunResult
  last_clientSearch :: jsstring
  finishedAt :: time

text \<open>The JSON body of a request; a field that is absent is \<open>None\<close>.\<close>

record RequestBody =
  body_clientSearch :: "jsstring option"
  body_newDate :: "jsstring option"
  body_newTime :: "jsstring option"
  body_currentAppointmentDate :: "jsstring option"

text \<open>The replies that the POST handler sends before it enqueues anything.\<close>

record Rejection =
  status :: nat
  rejected_id :: jsstring
  rejected_error :: jsstring

datatype effect =
    Pushed ref               \<comment> \<open>\<^verbatim>\<open>queue.push(item)\<close>\<close>
  | Started ref              \<comment> \<open>\<^verbatim>\<open>rescheduleAppointment(item.params)\<close> is called\<close>
  | Settled ref              \<comment> \<open>the \<^verbatim>\<open>await\<close> of that call is over\<close>
  | Resolved ref RunResult   \<comment> \<open>the item's \<^verbatim>\<open>resolve\<close> is called\<close>
  | ServerClosed             \<comment> \<open>\<^verbatim>\<open>server.close\<close> is called\<close>

record server =
  isRunning :: bool
  startedAt :: "time option"
  totalProcessed :: nat
  totalSuccess :: nat
  totalFailed :: nat
  lastResult :: "LastResult option"
  queue :: "ref list"
  heap :: "ref \<Rightarrow> QueueItem"
  nextRef :: ref
  timers :: "ref list"             \<comment> \<open>the items whose queue timer has not fired yet\<close>
  running :: "(ref \<times> time) list"   \<comment> \<open>\<^verbatim>\<open>item\<close> and \<^verbatim>\<open>start\<close> of each suspended \<^verbatim>\<open>processQueue\<close>\<close>
  listening :: bool
  exitArmed :: bool                \<comment> \<open>\<^verbatim>\<open>shutdown\<close> has arranged for \<^verbatim>\<open>process.exit\<close>\<close>
  exited :: bool                   \<comment> \<open>\<^verbatim>\<open>process.exit\<close> has been called\<close>
  trace :: "effect list"

definition blank_item :: QueueItem where
  "blank_item = \<lparr>item_id = [],
     params = \<lparr>clientSearch = [], newDate = [], newTime = [], currentAppointmentDate = None\<rparr>,
     queuedAt = 0, timedOut = False\<rparr>"

definition init :: server where
  "init = \<lparr>isRunning = False, startedAt = None, totalProcessed = 0, totalSuccess = 0,
     totalFailed = 0, lastResult = None, queue = [], heap = (\<lambda>_. blank_item), nextRef = 0,
     timers = [], running = [], listening = True, exitArmed = False, exited = False,
     trace = []\<rparr>"

text \<open>
  \<^verbatim>\<open>!x\<close> and \<^verbatim>\<open>x || d\<close> treat an absent value and the empty string alike.
\<close>

definition falsy :: "jsstring option \<Rightarrow> bool" where
  "falsy x = (case x of None \<Rightarrow> True | Some v \<Rightarrow> v = [])"

definition str_of :: "jsstring option \<Rightarrow> jsstring" where
  "str_of x = (case x of None \<Rightarrow> [] | Some v \<Rightarrow> v)"

text \<open>\<^verbatim>\<open>while (queue.length > 0 && queue[0].timedOut) queue.shift()\<close>\<close>

fun skip_timed_out :: "(ref \<Rightarrow> QueueItem) \<Rightarrow> ref list \<Rightarrow> ref list" where
  "skip_timed_out hp [] = []"
| "skip_timed_out hp (h # q) = (if timedOut (hp h) then skip_timed_out hp q else h # q)"

text \<open>\<^verbatim>\<open>processQueue\<close>, up to its \<^verbatim>\<open>await\<close>.\<close>

definition processQueue :: "time \<Rightarrow> server \<Rightarrow> server" where
  "processQueue now s =
     (if isRunning s \<or> queue s = [] then s
      else
        let s = s\<lparr>queue := skip_timed_out (heap s) (queue s)\<rparr> in
        case queue s of
          [] \<Rightarrow> s
        | h # rest \<Rightarrow>
            s\<lparr>isRunning := True, queue := rest, startedAt := Some now,
              running := running s @ [(h, now)], trace := trace s @ [Started h]\<rparr>)"

text \<open>The \<^verbatim>\<open>finally\<close> block of \<^verbatim>\<open>processQueue\<close>.\<close>

definition finally_block :: "time \<Rightarrow> server \<Rightarrow> server" where
  "finally_block now s = processQueue now (s\<lparr>isRunning := False, startedAt := None\<rparr>)"

text \<open>\<^verbatim>\<open>Math.round(ms / 1000)\<close> for a whole number of milliseconds.\<close>

definition round_seconds :: "int \<Rightarrow> int" where
  "round_seconds ms = (ms + 500) div 1000"

text \<open>
  \<^verbatim>\<open>processQueue\<close> behind its \<^verbatim>\<open>await\<close>. The suspended call is taken up
  again, with its \<^verbatim>\<open>item\<close> \<open>h\<close> and its \<^verbatim>\<open>start\<close>.
\<close>

definition resume :: "ref \<Rightarrow> time \<Rightarrow> server \<Rightarrow> server" where
  "resume h start s =
     s\<lparr>running := remove1 (h, start) (running s), trace := trace s @ [Settled h]\<rparr>"

text \<open>
  The rest of the \<^verbatim>\<open>try\<close> block, when \<^verbatim>\<open>rescheduleAppointment\<close> has returned
  \<open>result\<close>.
\<close>

definition run_result :: "QueueItem \<Rightarrow> RescheduleResult \<Rightarrow> int \<Rightarrow> RunResult" where
  "run_result item result d =
     (if result_success result
      then \<lparr>success = True, requestId = item_id item,
             message = Some (result_message result), error = None, duration = d\<rparr>
      else \<lparr>success = False, requestId = item_id item,
             message = None, error = Some (result_message result), duration = d\<rparr>)"

definition try_block :: "ref \<Rightarrow> time \<Rightarrow> RescheduleResult \<Rightarrow> time \<Rightarrow> server \<Rightarrow> server" where
  "try_block h start result now s =
     (let item = heap s h;
          d = round_seconds (now - start);
          runResult = run_result item result d;
          s = s\<lparr>totalProcessed := totalProcessed s + 1\<rparr>;
          s = (if result_success result then s\<lparr>totalSuccess := totalSuccess s + 1\<rparr>
               else s\<lparr>totalFailed := totalFailed s + 1\<rparr>);
          s = s\<lparr>lastResult := Some \<lparr>last_run = runResult,
                 last_clientSearch = clientSearch (params item), finishedAt = now\<rparr>\<rparr>
      in s\<lparr>trace := trace s @ [Resolved h runResult]\<rparr>)"

text \<open>
  What the call can throw: the \<^verbatim>\<open>catch\<close> block declares \<^verbatim>\<open>err: any\<close>. Reading
  \<^verbatim>\<open>err.message\<close> raises a TypeError when \<^verbatim>\<open>err\<close> is \<^verbatim>\<open>undefined\<close> or
  \<^verbatim>\<open>null\<close>; of every other value it gives the message, \<open>None\<close> when there is none.
\<close>

datatype thrown =
    Nullish                    \<comment> \<open>\<^verbatim>\<open>undefined\<close> or \<^verbatim>\<open>null\<close>\<close>
  | Thrown "jsstring option"   \<comment> \<open>any other value, with its \<^verbatim>\<open>message\<close>\<close>

text \<open>
  The \<^verbatim>\<open>catch\<close> block. The two counters are incremented first. Building
  \<^verbatim>\<open>errorResult\<close> reads \<^verbatim>\<open>err.message\<close>: for \<open>Nullish\<close> that raises, and the rest
  of the block, with the call of \<^verbatim>\<open>item.resolve\<close>, is not run.
\<close>

definition error_result :: "QueueItem \<Rightarrow> jsstring option \<Rightarrow> RunResult" where
  "error_result item msg =
     \<lparr>success = False, requestId = item_id item, message = None,
      error = Some (if falsy msg then js ''An unexpected error occurred.'' else str_of msg),
      duration = 0\<rparr>"

definition catch_block :: "ref \<Rightarrow> thrown \<Rightarrow> server \<Rightarrow> server" where
  "catch_block h err s =
     (let item = heap s h;
          s = s\<lparr>totalProcessed := totalProcessed s + 1\<rparr>;
          s = s\<lparr>totalFailed := totalFailed s + 1\<rparr>
      in case err of
           Nullish \<Rightarrow> s
         | Thrown msg \<Rightarrow>
             let errorResult = error_result item msg
             in s\<lparr>trace := trace s @ [Resolved h errorResult]\<rparr>)"

definition runner_returned :: "ref \<Rightarrow> RescheduleResult \<Rightarrow> time \<Rightarrow> server \<Rightarrow> server" where
  "runner_returned h result now s =
     (case map_of (running s) h of
        None \<Rightarrow> s
      | Some start \<Rightarrow> finally_block now (try_block h start result now (resume h start s)))"

text \<open>
  \<^verbatim>\<open>finally\<close> runs behind the \<^verbatim>\<open>try\<close> block and behind the \<^verbatim>\<open>catch\<close> block,
  also when the \<^verbatim>\<open>catch\<close> block has raised.
\<close>

definition runner_threw :: "ref \<Rightarrow> thrown \<Rightarrow> time \<Rightarrow> server \<Rightarrow> server" where
  "runner_threw h err now s =
     (case map_of (running s) h of
        None \<Rightarrow> s
      | Some start \<Rightarrow> finally_block now (catch_block h err (resume h start s)))"

text \<open>The callback that \<^verbatim>\<open>enqueue\<close> hands to \<^verbatim>\<open>setTimeout\<close>.\<close>

definition timeout_result :: "jsstring \<Rightarrow> RunResult" where
  "timeout_result rid = \<lparr>success = False, requestId = rid, message = None,
     error = Some (js ''Request timed out waiting in queue. Try again later.''), duration = 0\<rparr>"

definition timer_callback :: "ref \<Rightarrow> server \<Rightarrow> server" where
  "timer_callback h s =
     (if \<not> timedOut (heap s h) \<and> h \<in> set (queue s) then
        let s = s\<lparr>heap := (heap s)(h := (heap s h)\<lparr>timedOut := True\<rparr>)\<rparr>;
            s = s\<lparr>queue := remove1 h (queue s)\<rparr>
        in s\<lparr>trace := trace s @ [Resolved h (timeout_result (item_id (heap s h)))]\<rparr>
      else s)"

text \<open>
  \<^verbatim>\<open>enqueue\<close>: the executor of the new promise makes the item, pushes it, sets its
  timer and calls \<^verbatim>\<open>processQueue\<close>.
\<close>

definition push_item :: "jsstring \<Rightarrow> RescheduleParams \<Rightarrow> time \<Rightarrow> server \<Rightarrow> server" where
  "push_item rid ps now s =
     (let h = nextRef s;
          item = \<lparr>item_id = rid, params = ps, queuedAt = now, timedOut = False\<rparr>;
          s = s\<lparr>heap := (heap s)(h := item), nextRef := Suc h\<rparr>;
          s = s\<lparr>queue := queue s @ [h], trace := trace s @ [Pushed h]\<rparr>
      in s\<lparr>timers := timers s @ [h]\<rparr>)"

definition enqueue :: "jsstring \<Rightarrow> RescheduleParams \<Rightarrow> time \<Rightarrow> server \<Rightarrow> server" where
  "enqueue rid ps now s = processQueue now (push_item rid ps now s)"

text \<open>
  The patterns of the POST handler, \<^verbatim>\<open>/^[0-9]{2}\/[0-9]{2}\/[0-9]{4}$/\<close> and
  \<^verbatim>\<open>/^[0-9]{1,2}:[0-9]{2}\s?(AM|PM)$/i\<close>, without the anchors.
\<close>

definition re_date :: regex where
  "re_date = Seqs [Atom Digit, Atom Digit, Lit CHR ''/'', Atom Digit, Atom Digit, Lit CHR ''/'',
                   Atom Digit, Atom Digit, Atom Digit, Atom Digit]"

definition re_time :: regex where
  "re_time = Seqs [Atom Digit, Opt (Atom Digit), Lit CHR '':'', Atom Digit, Atom Digit,
                   Opt (Atom Space), Alt (Str ''AM'') (Str ''PM'')]"

definition reject :: "nat \<Rightarrow> jsstring \<Rightarrow> jsstring \<Rightarrow> Rejection" where
  "reject code rid text = \<lparr>status = code, rejected_id = rid, rejected_error = text\<rparr>"

text \<open>A text between double quotes.\<close>

definition quoted :: "string \<Rightarrow> jsstring" where
  "quoted cs = [34] @ js cs @ [34]"

text \<open>
  \<^verbatim>\<open>params\<close>: the three fields, and \<^verbatim>\<open>currentAppointmentDate\<close> when it is there
  and not empty.
\<close>

definition params_of :: "RequestBody \<Rightarrow> RescheduleParams" where
  "params_of body =
     \<lparr>clientSearch = str_of (body_clientSearch body),
      newDate = str_of (body_newDate body),
      newTime = str_of (body_newTime body),
      currentAppointmentDate =
        (if falsy (body_currentAppointmentDate body) then None
         else body_currentAppointmentDate body)\<rparr>"

text \<open>
  The POST handler, behind the authentication middleware, up to its \<^verbatim>\<open>await\<close>. Its
  result is the reply that it sends at once, if any. The reply to an accepted request,
  sent when the promise is resolved, has status 200 or 500 and is not modelled.
\<close>

definition post_reschedule ::
    "RequestBody \<Rightarrow> jsstring \<Rightarrow> time \<Rightarrow> server \<Rightarrow> Rejection option \<times> server" where
  "post_reschedule body rid now s =
     (if falsy (body_clientSearch body) \<or> falsy (body_newDate body) \<or> falsy (body_newTime body)
        then (Some (reject 400 rid (js ''Missing required fields: clientSearch, newDate, newTime'')), s)
      else if \<not> re_test_whole False re_date (str_of (body_newDate body))
        then (Some (reject 400 rid
                (js ''newDate must be in MM/DD/YYYY format (e.g. '' @ quoted ''03/05/2026'' @ js '')'')), s)
      else if \<not> re_test_whole True re_time (str_of (body_newTime body))
        then (Some (reject 400 rid
                (js ''newTime must be in HH:MM AM/PM format (e.g. '' @ quoted ''03:00 PM'' @ js '')'')), s)
      else if \<not> falsy (body_currentAppointmentDate body)
              \<and> \<not> re_test_whole False re_date (str_of (body_currentAppointmentDate body))
        then (Some (reject 400 rid
                (js ''currentAppointmentDate must be in MM/DD/YYYY format (e.g. ''
                 @ quoted ''03/06/2026'' @ js '')'')), s)
      else if length (queue s) \<ge> MAX_QUEUE_SIZE
        then (Some (reject 429 rid (js ''Queue is full (50 pending). Try again later.'')), s)
      else (None, enqueue rid (params_of body) now s))"

text \<open>Has the handler's validation let the body through?\<close>

definition valid_body :: "RequestBody \<Rightarrow> bool" where
  "valid_body body =
     (\<not> falsy (body_clientSearch body) \<and> \<not> falsy (body_newDate body)
      \<and> \<not> falsy (body_newTime body)
      \<and> re_test_whole False re_date (str_of (body_newDate body))
      \<and> re_test_whole True re_time (str_of (body_newTime body))
      \<and> (falsy (body_currentAppointmentDate body)
           \<or> re_test_whole False re_date (str_of (body_currentAppointmentDate body))))"

text \<open>
  \<^verbatim>\<open>shutdown\<close>: the loop that empties the queue, then \<^verbatim>\<open>server.close\<close>, whose
  callback calls \<^verbatim>\<open>process.exit(0)\<close> once every connection has ended, and a timer
  that calls \<^verbatim>\<open>process.exit(1)\<close> after ten seconds.
\<close>

definition shutdown_result :: "jsstring \<Rightarrow> RunResult" where
  "shutdown_result rid = \<lparr>success = False, requestId = rid, message = None,
     error = Some (js ''Server shutting down''), duration = 0\<rparr>"

function drain :: "server \<Rightarrow> server" where
  "drain s =
     (case queue s of
        [] \<Rightarrow> s
      | h # rest \<Rightarrow>
          drain (s\<lparr>queue := rest,
                   trace := trace s @ [Resolved h (shutdown_result (item_id (heap s h)))]\<rparr>))"
  by pat_completeness auto
termination
  by (relation "measure (\<lambda>s. length (queue s))") auto

declare drain.simps [simp del]

definition shutdown :: "server \<Rightarrow> server" where
  "shutdown s =
     (let s = drain s;
          s = s\<lparr>listening := False, trace := trace s @ [ServerClosed]\<rparr>
      in s\<lparr>exitArmed := True\<rparr>)"

text \<open>What \<^verbatim>\<open>GET /api/health\<close> reports of the counters and the queue.\<close>

record Health =
  health_isRunning :: bool
  queueLength :: nat
  stats_totalProcessed :: nat
  stats_totalSuccess :: nat
  stats_totalFailed :: nat

definition health :: "server \<Rightarrow> Health" where
  "health s = \<lparr>health_isRunning = isRunning s, queueLength = length (queue s),
     stats_totalProcessed = totalProcessed s, stats_totalSuccess = totalSuccess s,
     stats_totalFailed = totalFailed s\<rparr>"

datatype event =
    Post RequestBody jsstring time          \<comment> \<open>a request, the id generated for it, the clock\<close>
  | TimerFired ref                          \<comment> \<open>the queue timer of an item fires\<close>
  | RunnerReturned ref RescheduleResult time
  | RunnerThrew ref thrown time
  | Signal                                  \<comment> \<open>SIGTERM or SIGINT\<close>
  | Exit                                    \<comment> \<open>\<^verbatim>\<open>process.exit\<close> is called\<close>

text \<open>
  An event that cannot happen in a state leaves it as it is: a timer fires once, a call
  settles only where a \<^verbatim>\<open>processQueue\<close> is waiting for it, and the process exits
  only when \<^verbatim>\<open>shutdown\<close> has arranged for it. A request may still come in on an open
  connection after \<^verbatim>\<open>server.close\<close>.
\<close>

fun step :: "event \<Rightarrow> server \<Rightarrow> server" where
  "step (Post body rid now) s = snd (post_reschedule body rid now s)"
| "step (TimerFired h) s =
     (if h \<in> set (timers s) then timer_callback h (s\<lparr>timers := remove1 h (timers s)\<rparr>) else s)"
| "step (RunnerReturned h result now) s = runner_returned h result now s"
| "step (RunnerThrew h err now) s = runner_threw h err now s"
| "step Signal s = shutdown s"
| "step Exit s = (if exitArmed s then s\<lparr>exited := True\<rparr> else s)"

fun is_post :: "event \<Rightarrow> bool" where
  "is_post (Post body rid now) = True"
| "is_post _ = False"



text \<open>The events are handled one after the other, until the process has exited.\<close>

fun run :: "event list \<Rightarrow> server \<Rightarrow> server" where
  "run [] s = s"
| "run (e # es) s = (if exited s then s else run es (step e s))"

text \<open>Reading a trace.\<close>

fun resolved_ref :: "effect \<Rightarrow> ref option" where
  "resolved_ref (Resolved h r) = Some h"
| "resolved_ref _ = None"

definition resolutions :: "ref \<Rightarrow> effect list \<Rightarrow> nat" where
  "resolutions h tr = length (filter (\<lambda>e. resolved_ref e = Some h) tr)"

text \<open>\<open>precedes x y tr\<close>: \<open>y\<close> occurs in \<open>tr\<close> behind the first \<open>x\<close>.\<close>

fun precedes :: "'a \<Rightarrow> 'a \<Rightarrow> 'a list \<Rightarrow> bool" where
  "precedes x y [] = False"
| "precedes x y (e # tr) = (if e = x then y \<in> set tr else precedes x y tr)"

section \<open>Invariants of the reachable states\<close>

text \<open>
  The busy flag is set exactly while a \<^verbatim>\<open>processQueue\<close> is suspended, and at most
  one is.
\<close>

definition inv_flag :: "server \<Rightarrow> bool" where
  "inv_flag s = ((isRunning s \<longleftrightarrow> running s \<noteq> []) \<and> length (running s) \<le> 1)"

text \<open>
  The waiting list is in the order of the references. Its items are not marked timed
  out, their timers have not fired, their promises are not resolved and their runs not
  started.
\<close>

definition inv_queue :: "server \<Rightarrow> bool" where
  "inv_queue s =
     (sorted_wrt (<) (queue s)
      \<and> (\<forall>h\<in>set (queue s). h < nextRef s \<and> \<not> timedOut (heap s h) \<and> h \<in> set (timers s)
            \<and> resolutions h (trace s) = 0 \<and> h \<notin> fst ` set (running s)))"

text \<open>
  The run of an item in flight has been started and is not over, and its promise is not
  resolved.
\<close>

definition inv_running :: "server \<Rightarrow> bool" where
  "inv_running s =
     ((\<forall>h\<in>fst ` set (running s). h < nextRef s \<and> Started h \<in> set (trace s)
            \<and> resolutions h (trace s) = 0)
      \<and> (\<forall>h. Settled h \<in> set (trace s) \<longrightarrow>
            Started h \<in> set (trace s) \<and> h \<notin> fst ` set (running s)))"

text \<open>
  No promise is resolved twice, and an item in use is resolved, waiting, in flight, or its
  run is over.
\<close>

definition inv_resolved :: "server \<Rightarrow> bool" where
  "inv_resolved s =
     (\<forall>h. resolutions h (trace s) \<le> 1
          \<and> (h < nextRef s \<longrightarrow>
                resolutions h (trace s) = 1 \<or> h \<in> set (queue s) \<or> h \<in> fst ` set (running s)
                \<or> Settled h \<in> set (trace s))
          \<and> (nextRef s \<le> h \<longrightarrow> resolutions h (trace s) = 0))"


text \<open>
  An item whose run has been started is older than every waiting item, and its run is in
  flight or over.
\<close>

definition inv_started :: "server \<Rightarrow> bool" where
  "inv_started s =
     (\<forall>h. Started h \<in> set (trace s) \<longrightarrow>
          h < nextRef s \<and> (\<forall>q\<in>set (queue s). h < q)
          \<and> (h \<in> fst ` set (running s) \<or> precedes (Started h) (Settled h) (trace s)))"

text \<open>The run of an older item is over before the run of a younger one is started.\<close>

definition inv_order :: "server \<Rightarrow> bool" where
  "inv_order s =
     (\<forall>a b. a < b \<and> Started a \<in> set (trace s) \<and> Started b \<in> set (trace s) \<longrightarrow>
          precedes (Settled a) (Started b) (trace s))"

text \<open>Behind the start of a run, no run of an older item starts or ends.\<close>

definition inv_after :: "server \<Rightarrow> bool" where
  "inv_after s =
     (\<forall>a b. a < b \<and> Started b \<in> set (trace s) \<longrightarrow>
          \<not> precedes (Started b) (Started a) (trace s)
          \<and> \<not> precedes (Started b) (Settled a) (trace s))"

text \<open>Items are pushed in the order of their references.\<close>

definition inv_pushed :: "server \<Rightarrow> bool" where
  "inv_pushed s =
     ((\<forall>h. Pushed h \<in> set (trace s) \<longrightarrow> h < nextRef s)
      \<and> (\<forall>a b. precedes (Pushed a) (Pushed b) (trace s) \<longrightarrow> a < b))"

definition inv :: "server \<Rightarrow> bool" where
  "inv s = (inv_flag s \<and> inv_queue s \<and> inv_running s \<and> inv_resolved s \<and> inv_started s
            \<and> inv_order s \<and> inv_pushed s \<and> inv_after s)"

section \<open>Sample requests and runs\<close>

text \<open>A well-formed request, a result of the runner, and short runs of the server.\<close>

definition body1 :: RequestBody where
  "body1 = \<lparr>body_clientSearch = Some (js ''5551234567''), body_newDate = Some (js ''03/05/2026''),
     body_newTime = Some (js ''03:00 PM''), body_currentAppointmentDate = None\<rparr>"

definition done_ok :: RescheduleResult where
  "done_ok = \<lparr>result_success = True,
     result_message = js ''Appointment rescheduled to 03/05/2026 at 03:00 PM''\<rparr>"

definition three_posts :: "event list" where
  "three_posts = [Post body1 (js ''a1'') 0, Post body1 (js ''b2'') 10, Post body1 (js ''c3'') 20]"

definition two_served :: "event list" where
  "two_served = [Post body1 (js ''a1'') 0, Post body1 (js ''b2'') 10,
     RunnerReturned 0 done_ok 2000, RunnerThrew 1 (Thrown None) 4000]"

text \<open>Fifty-one requests in a row: the first is in flight, fifty are waiting.\<close>

definition full_run :: "event list" where
  "full_run = replicate 51 (Post body1 (js ''a1'') 0)"



section \<open>Properties of the request queue\<close>

subsection \<open>Traces\<close>

lemma precedes_append:
  "precedes x y (tr @ ws) =
     (precedes x y tr \<or> (x \<in> set tr \<and> y \<in> set ws) \<or> (x \<notin> set tr \<and> precedes x y ws))"
  by (induction tr) auto

lemma precedes_in_set: "precedes x y tr \<Longrightarrow> x \<in> set tr \<and> y \<in> set tr"
  by (induction tr) (auto split: if_splits)

lemma resolutions_append [simp]:
  "resolutions h (tr @ ws) = resolutions h tr + resolutions h ws"
  by (simp add: resolutions_def)

lemma resolutions_Nil [simp]: "resolutions h [] = 0"
  by (simp add: resolutions_def)

lemma resolutions_Cons [simp]:
  "resolutions h (e # tr) = (if resolved_ref e = Some h then 1 else 0) + resolutions h tr"
  by (simp add: resolutions_def)

lemma resolutions_map_Resolved:
  "resolutions h (map (\<lambda>k. Resolved k (f k)) q) = count_list q h"
  by (induction q) auto

lemma count_list_distinct: "distinct q \<Longrightarrow> count_list q h = (if h \<in> set q then 1 else 0)"
  by (induction q) auto

lemma sorted_wrt_remove1: "sorted_wrt P q \<Longrightarrow> sorted_wrt P (remove1 x q)"
  by (induction q) (auto dest: notin_set_remove1)

lemma strict_sorted_distinct: "sorted_wrt (<) (q :: nat list) \<Longrightarrow> distinct q"
  by (induction q) auto

text \<open>Appending to a trace in which no run of a later request is followed by an earlier one.\<close>

lemma after_append_other:
  assumes "inv_after s" and "trace s' = trace s @ ws"
    and "\<forall>h. Started h \<notin> set ws \<and> Settled h \<notin> set ws"
  shows "inv_after s'"
  using assms by (auto simp: inv_after_def precedes_append dest: precedes_in_set)

lemma after_append_started:
  assumes "inv_after s" and "trace s' = trace s @ [Started h]"
    and "\<forall>b. Started b \<in> set (trace s) \<longrightarrow> b < h"
  shows "inv_after s'"
  unfolding inv_after_def
proof (intro allI impI)
  fix a b
  assume ab: "a < b \<and> Started b \<in> set (trace s')"
  show "\<not> precedes (Started b) (Started a) (trace s') \<and> \<not> precedes (Started b) (Settled a) (trace s')"
  proof (cases "Started b \<in> set (trace s)")
    case True
    then have "b < h" using assms(3) by blast
    then have "a \<noteq> h" using ab by auto
    moreover have "\<not> precedes (Started b) (Started a) (trace s) \<and> \<not> precedes (Started b) (Settled a) (trace s)"
      using assms(1) ab True by (simp add: inv_after_def)
    ultimately show ?thesis using True by (simp add: assms(2) precedes_append)
  next
    case False
    then have "\<not> precedes (Started b) y (trace s)" for y
      using precedes_in_set [of "Started b" y "trace s"] by blast
    then show ?thesis using False by (simp add: assms(2) precedes_append)
  qed
qed

lemma after_append_settled:
  assumes "inv_after s" and "trace s' = trace s @ Settled h # ws"
    and "\<forall>k. Started k \<notin> set ws \<and> Settled k \<notin> set ws"
    and "\<forall>b. h < b \<longrightarrow> Started b \<notin> set (trace s)"
  shows "inv_after s'"
  unfolding inv_after_def
proof (intro allI impI)
  fix a b
  assume ab: "a < b \<and> Started b \<in> set (trace s')"
  then have sb: "Started b \<in> set (trace s)" using assms(2,3) by auto
  then have "a \<noteq> h" using assms(4) ab by auto
  moreover have "\<not> precedes (Started b) (Started a) (trace s) \<and> \<not> precedes (Started b) (Settled a) (trace s)"
    using assms(1) ab sb by (simp add: inv_after_def)
  ultimately show "\<not> precedes (Started b) (Started a) (trace s') \<and> \<not> precedes (Started b) (Settled a) (trace s')"
    using sb assms(3) by (auto simp: assms(2) precedes_append)
qed

subsection \<open>The operations, field by field\<close>

lemma drain_eq:
  "drain s = s\<lparr>queue := [],
     trace := trace s @ map (\<lambda>h. Resolved h (shutdown_result (item_id (heap s h)))) (queue s)\<rparr>"
proof (induction "queue s" arbitrary: s)
  case Nil
  then show ?case by (simp add: drain.simps [of s])
next
  case (Cons h rest)
  from Cons(2) have q: "queue s = h # rest" by simp
  let ?s' = "s\<lparr>queue := rest,
    trace := trace s @ [Resolved h (shutdown_result (item_id (heap s h)))]\<rparr>"
  have "drain s = drain ?s'" using q by (simp add: drain.simps [of s])
  also have "\<dots> = ?s'\<lparr>queue := [],
      trace := trace ?s' @ map (\<lambda>h. Resolved h (shutdown_result (item_id (heap ?s' h)))) (queue ?s')\<rparr>"
    by (rule Cons(1)) simp
  finally show ?case using q by simp
qed

lemma shutdown_eq:
  "shutdown s = s\<lparr>queue := [], listening := False, exitArmed := True,
     trace := trace s @ map (\<lambda>h. Resolved h (shutdown_result (item_id (heap s h)))) (queue s)
              @ [ServerClosed]\<rparr>"
  by (simp add: shutdown_def drain_eq)

lemma length_skip_timed_out: "length (skip_timed_out hp q) \<le> length q"
  by (induction q) auto

lemma processQueue_busy: "isRunning s \<or> queue s = [] \<Longrightarrow> processQueue now s = s"
  by (simp add: processQueue_def)

lemma processQueue_start:
  "\<not> isRunning s \<Longrightarrow> queue s = h # rest \<Longrightarrow> \<not> timedOut (heap s h) \<Longrightarrow>
   processQueue now s =
     s\<lparr>isRunning := True, queue := rest, startedAt := Some now,
       running := running s @ [(h, now)], trace := trace s @ [Started h]\<rparr>"
  by (simp add: processQueue_def)

lemma push_item_eq:
  "push_item rid ps now s =
     s\<lparr>heap := (heap s)(nextRef s := \<lparr>item_id = rid, params = ps, queuedAt = now, timedOut = False\<rparr>),
       nextRef := Suc (nextRef s), queue := queue s @ [nextRef s],
       trace := trace s @ [Pushed (nextRef s)], timers := timers s @ [nextRef s]\<rparr>"
  by (simp add: push_item_def Let_def)

lemma try_block_eq:
  "try_block h start result now s =
     s\<lparr>totalProcessed := totalProcessed s + 1,
       totalSuccess := (if result_success result then totalSuccess s + 1 else totalSuccess s),
       totalFailed := (if result_success result then totalFailed s else totalFailed s + 1),
       lastResult := Some \<lparr>last_run = run_result (heap s h) result (round_seconds (now - start)),
          last_clientSearch = clientSearch (params (heap s h)), finishedAt = now\<rparr>,
       trace := trace s @ [Resolved h (run_result (heap s h) result (round_seconds (now - start)))]\<rparr>"
  by (simp add: try_block_def Let_def)

lemma catch_block_eq:
  "catch_block h err s =
     s\<lparr>totalProcessed := totalProcessed s + 1, totalFailed := totalFailed s + 1,
       trace := trace s @
         (case err of Nullish \<Rightarrow> [] | Thrown msg \<Rightarrow> [Resolved h (error_result (heap s h) msg)])\<rparr>"
  by (cases err) (simp_all add: catch_block_def Let_def)

lemma timer_callback_eq:
  "timer_callback h s =
     (if \<not> timedOut (heap s h) \<and> h \<in> set (queue s)
      then s\<lparr>heap := (heap s)(h := (heap s h)\<lparr>timedOut := True\<rparr>), queue := remove1 h (queue s),
             trace := trace s @ [Resolved h (timeout_result (item_id (heap s h)))]\<rparr>
      else s)"
  by (simp add: timer_callback_def Let_def)


subsection \<open>The invariant\<close>

lemma inv_init: "inv init"
  by (simp add: inv_def init_def inv_flag_def inv_queue_def inv_running_def inv_resolved_def
      inv_started_def inv_order_def inv_pushed_def inv_after_def)

lemma inv_processQueue:
  assumes "inv s"
  shows "inv (processQueue now s)"
proof (cases "isRunning s \<or> queue s = []")
  case True
  then show ?thesis using assms by (simp add: processQueue_busy)
next
  case False
  then obtain h rest where q: "queue s = h # rest" and idle: "\<not> isRunning s"
    by (cases "queue s") auto
  from assms have fl: "inv_flag s" and qu: "inv_queue s" and ru: "inv_running s"
    and re: "inv_resolved s" and st: "inv_started s" and ord: "inv_order s" and pu: "inv_pushed s"
    and af: "inv_after s"
    by (simp_all add: inv_def)
  from fl idle have r0: "running s = []" by (simp add: inv_flag_def)
  from qu q have nt: "\<not> timedOut (heap s h)" by (simp add: inv_queue_def)
  let ?s' = "s\<lparr>isRunning := True, queue := rest, startedAt := Some now,
       running := running s @ [(h, now)], trace := trace s @ [Started h]\<rparr>"
  have eq: "processQueue now s = ?s'" using idle q nt by (rule processQueue_start)
  have 1: "inv_flag ?s'" using r0 by (simp add: inv_flag_def)
  have 2: "inv_queue ?s'" using qu q r0 by (auto simp: inv_queue_def)
  have 3: "inv_running ?s'"
    using ru qu st q r0 by (auto simp: inv_running_def inv_queue_def inv_started_def)
  have 4: "inv_resolved ?s'" using re q r0 by (auto simp: inv_resolved_def)
  have old: "\<forall>a. Started a \<in> set (trace s) \<longrightarrow> a < h \<and> Settled a \<in> set (trace s)"
    using st q r0 by (auto simp: inv_started_def dest: precedes_in_set)
  have 5: "inv_started ?s'"
    using st qu q r0 by (auto simp: inv_started_def inv_queue_def precedes_append)
  have 6: "inv_order ?s'"
    unfolding inv_order_def
  proof (intro allI impI)
    fix a b
    assume ab: "a < b \<and> Started a \<in> set (trace ?s') \<and> Started b \<in> set (trace ?s')"
    show "precedes (Settled a) (Started b) (trace ?s')"
    proof (cases "Started b \<in> set (trace s)")
      case True
      with old have "b < h" by blast
      with ab True have "Started a \<in> set (trace s)" by auto
      with ord ab True have "precedes (Settled a) (Started b) (trace s)"
        by (simp add: inv_order_def)
      then show ?thesis by (simp add: precedes_append)
    next
      case False
      with ab have b: "b = h" and a: "Started a \<in> set (trace s)" by auto
      from a old have "Settled a \<in> set (trace s)" by blast
      then show ?thesis using b by (simp add: precedes_append)
    qed
  qed
  have 7: "inv_pushed ?s'" using pu by (auto simp: inv_pushed_def precedes_append)
  have 8: "inv_after ?s'"
    by (rule after_append_started [OF af, where h = h]) (use old in simp_all)
  show ?thesis unfolding eq inv_def using 1 2 3 4 5 6 7 8 by blast
qed


lemma inv_push_item:
  assumes "inv s"
  shows "inv (push_item rid ps now s)"
proof -
  from assms have fl: "inv_flag s" and qu: "inv_queue s" and ru: "inv_running s"
    and re: "inv_resolved s" and st: "inv_started s" and ord: "inv_order s" and pu: "inv_pushed s"
    and af: "inv_after s"
    by (simp_all add: inv_def)
  let ?s' = "push_item rid ps now s"
  have 1: "inv_flag ?s'" using fl by (simp add: inv_flag_def push_item_eq)
  have fresh: "resolutions (nextRef s) (trace s) = 0" "nextRef s \<notin> fst ` set (running s)"
    using re ru by (auto simp: inv_resolved_def inv_running_def)
  have 2: "inv_queue ?s'"
    using qu fresh by (auto simp: inv_queue_def push_item_eq sorted_wrt_append)
  have 3: "inv_running ?s'" using ru by (auto simp: inv_running_def push_item_eq)
  have 4: "inv_resolved ?s'"
    using re by (auto simp: inv_resolved_def push_item_eq less_Suc_eq)
  have 5: "inv_started ?s'"
    using st by (auto simp: inv_started_def push_item_eq precedes_append)
  have 6: "inv_order ?s'" using ord by (auto simp: inv_order_def push_item_eq precedes_append)
  have 7: "inv_pushed ?s'"
    using pu by (auto simp: inv_pushed_def push_item_eq precedes_append less_Suc_eq)
  have 8: "inv_after ?s'"
    by (rule after_append_other [OF af, where ws = "[Pushed (nextRef s)]"])
       (simp_all add: push_item_eq)
  show ?thesis unfolding inv_def using 1 2 3 4 5 6 7 8 by blast
qed

text \<open>
  A settled call: the suspended \<^verbatim>\<open>processQueue\<close> adds \<open>Settled h\<close> and at most one
  \<open>Resolved h r\<close> to the trace, and \<^verbatim>\<open>finally\<close> clears the flag.
\<close>

lemma inv_settled:
  assumes "inv s" and run: "map_of (running s) h = Some start"
    and tr: "trace s' = trace s @ Settled h # rs" and rs: "rs = [] \<or> rs = [Resolved h r]"
    and same: "queue s' = queue s" "heap s' = heap s" "nextRef s' = nextRef s"
      "timers s' = timers s" "running s' = remove1 (h, start) (running s)"
      "isRunning s' = False"
  shows "inv s'"
proof -
  from assms have fl: "inv_flag s" and qu: "inv_queue s" and ru: "inv_running s"
    and re: "inv_resolved s" and st: "inv_started s" and ord: "inv_order s" and pu: "inv_pushed s"
    and af: "inv_after s"
    by (simp_all add: inv_def)
  from run have "(h, start) \<in> set (running s)" by (rule map_of_SomeD)
  with fl have r1: "running s = [(h, start)]"
    by (cases "running s") (auto simp: inv_flag_def)
  then have r0: "running s' = []" using same by simp
  from ru r1 have hfacts: "h < nextRef s" "Started h \<in> set (trace s)" "resolutions h (trace s) = 0"
    by (simp_all add: inv_running_def)
  have 1: "inv_flag s'" using r0 same by (simp add: inv_flag_def)
  have 2: "inv_queue s'"
    using qu r1 r0 same tr rs by (auto simp: inv_queue_def)
  have 3: "inv_running s'" using ru r0 tr rs hfacts by (auto simp: inv_running_def)
  have 4: "inv_resolved s'"
    using re r1 r0 same tr rs hfacts by (auto simp: inv_resolved_def)
  have 5: "inv_started s'"
    using st r1 r0 same tr rs hfacts by (auto simp: inv_started_def precedes_append)
  have 6: "inv_order s'" using ord tr rs by (auto simp: inv_order_def precedes_append)
  have 7: "inv_pushed s'" using pu same tr rs by (auto simp: inv_pushed_def precedes_append)
  have later: "\<forall>b. h < b \<longrightarrow> Started b \<notin> set (trace s)"
  proof (intro allI impI notI)
    fix b
    assume "h < b" and "Started b \<in> set (trace s)"
    with ord hfacts have "precedes (Settled h) (Started b) (trace s)"
      by (simp add: inv_order_def)
    then have "Settled h \<in> set (trace s)" by (simp add: precedes_in_set)
    with ru r1 show False by (auto simp: inv_running_def)
  qed
  have 8: "inv_after s'"
    by (rule after_append_settled [OF af tr _ later]) (use rs in auto)
  show ?thesis unfolding inv_def using 1 2 3 4 5 6 7 8 by blast
qed

lemma inv_runner_returned:
  assumes "inv s"
  shows "inv (runner_returned h result now s)"
proof (cases "map_of (running s) h")
  case None
  then show ?thesis using assms by (simp add: runner_returned_def)
next
  case (Some start)
  let ?s' = "(try_block h start result now (resume h start s))\<lparr>isRunning := False, startedAt := None\<rparr>"
  have "inv ?s'"
    by (rule inv_settled [OF assms Some,
          where r = "run_result (heap s h) result (round_seconds (now - start))"
            and rs = "[Resolved h (run_result (heap s h) result (round_seconds (now - start)))]"])
       (simp_all add: try_block_eq resume_def)
  then have "inv (processQueue now ?s')" by (rule inv_processQueue)
  then show ?thesis using Some by (simp add: runner_returned_def finally_block_def)
qed

lemma inv_runner_threw:
  assumes "inv s"
  shows "inv (runner_threw h err now s)"
proof (cases "map_of (running s) h")
  case None
  then show ?thesis using assms by (simp add: runner_threw_def)
next
  case (Some start)
  let ?s' = "(catch_block h err (resume h start s))\<lparr>isRunning := False, startedAt := None\<rparr>"
  let ?rs = "case err of Nullish \<Rightarrow> []
             | Thrown msg \<Rightarrow> [Resolved h (error_result (heap s h) msg)]"
  have "inv ?s'"
    by (rule inv_settled [OF assms Some,
          where r = "error_result (heap s h) (case err of Nullish \<Rightarrow> None | Thrown msg \<Rightarrow> msg)"
            and rs = ?rs])
       (simp_all add: catch_block_eq resume_def split: thrown.splits)
  then have "inv (processQueue now ?s')" by (rule inv_processQueue)
  then show ?thesis using Some by (simp add: runner_threw_def finally_block_def)
qed

lemma inv_timer:
  assumes "inv s"
  shows "inv (step (TimerFired h) s)"
proof (cases "h \<in> set (timers s)")
  case False
  then show ?thesis using assms by simp
next
  case armed: True
  from assms have fl: "inv_flag s" and qu: "inv_queue s" and ru: "inv_running s"
    and re: "inv_resolved s" and st: "inv_started s" and ord: "inv_order s" and pu: "inv_pushed s"
    and af: "inv_after s"
    by (simp_all add: inv_def)
  let ?s' = "step (TimerFired h) s"
  from qu have dq: "distinct (queue s)" by (simp add: inv_queue_def strict_sorted_distinct)
  show ?thesis
  proof (cases "h \<in> set (queue s)")
    case False
    then have eq: "?s' = s\<lparr>timers := remove1 h (timers s)\<rparr>"
      using armed by (simp add: timer_callback_eq)
    have "\<And>k. k \<in> set (queue s) \<Longrightarrow> k \<noteq> h" using False by auto
    then have 2: "inv_queue ?s'" using qu unfolding eq by (auto simp: inv_queue_def)
    have 8: "inv_after ?s'"
      unfolding eq by (rule after_append_other [OF af, where ws = "[]"]) simp_all
    show ?thesis
      unfolding inv_def using 2 8 fl ru re st ord pu unfolding eq
      by (simp add: inv_flag_def inv_running_def inv_resolved_def inv_started_def inv_order_def
          inv_pushed_def)
  next
    case True
    with qu have hq: "\<not> timedOut (heap s h)" "resolutions h (trace s) = 0"
      "h \<notin> fst ` set (running s)" "h < nextRef s"
      by (simp_all add: inv_queue_def)
    have eq: "?s' = s\<lparr>timers := remove1 h (timers s),
        heap := (heap s)(h := (heap s h)\<lparr>timedOut := True\<rparr>), queue := remove1 h (queue s),
        trace := trace s @ [Resolved h (timeout_result (item_id (heap s h)))]\<rparr>"
      using armed True hq by (simp add: timer_callback_eq)
    have 1: "inv_flag ?s'" using fl unfolding eq by (simp add: inv_flag_def)
    have 2: "inv_queue ?s'"
      using qu dq unfolding eq by (auto simp: inv_queue_def sorted_wrt_remove1)
    have 3: "inv_running ?s'" using ru hq unfolding eq by (auto simp: inv_running_def)
    have 4: "inv_resolved ?s'"
      using re hq dq unfolding eq by (auto simp: inv_resolved_def)
    have 5: "inv_started ?s'"
      using st unfolding eq
      by (auto simp: inv_started_def precedes_append dest: notin_set_remove1)
    have 6: "inv_order ?s'" using ord unfolding eq by (auto simp: inv_order_def precedes_append)
    have 7: "inv_pushed ?s'" using pu unfolding eq by (auto simp: inv_pushed_def precedes_append)
    have 8: "inv_after ?s'"
      unfolding eq
      by (rule after_append_other [OF af,
            where ws = "[Resolved h (timeout_result (item_id (heap s h)))]"]) simp_all
    show ?thesis unfolding inv_def using 1 2 3 4 5 6 7 8 by blast
  qed
qed

lemma inv_shutdown:
  assumes "inv s"
  shows "inv (shutdown s)"
proof -
  from assms have fl: "inv_flag s" and qu: "inv_queue s" and ru: "inv_running s"
    and re: "inv_resolved s" and st: "inv_started s" and ord: "inv_order s" and pu: "inv_pushed s"
    and af: "inv_after s"
    by (simp_all add: inv_def)
  let ?s' = "shutdown s"
  from qu have dq: "distinct (queue s)" by (simp add: inv_queue_def strict_sorted_distinct)
  have cnt: "\<And>k f. resolutions k (map (\<lambda>h. Resolved h (f h)) (queue s)) = (if k \<in> set (queue s) then 1 else 0)"
    using dq by (simp add: resolutions_map_Resolved count_list_distinct)
  have 1: "inv_flag ?s'" using fl by (simp add: inv_flag_def shutdown_eq)
  have 2: "inv_queue ?s'" by (simp add: inv_queue_def shutdown_eq)
  have 3: "inv_running ?s'"
    using ru qu by (auto simp: inv_running_def inv_queue_def shutdown_eq cnt)
  have 4: "inv_resolved ?s'"
    using re qu by (auto simp: inv_resolved_def inv_queue_def shutdown_eq cnt)
  have 5: "inv_started ?s'" using st by (auto simp: inv_started_def shutdown_eq precedes_append)
  have 6: "inv_order ?s'" using ord by (auto simp: inv_order_def shutdown_eq precedes_append)
  have 7: "inv_pushed ?s'"
    using pu by (auto simp: inv_pushed_def shutdown_eq precedes_append dest: precedes_in_set)
  have 8: "inv_after ?s'"
    by (rule after_append_other [OF af,
          where ws = "map (\<lambda>h. Resolved h (shutdown_result (item_id (heap s h)))) (queue s)
                      @ [ServerClosed]"])
       (auto simp: shutdown_eq)
  show ?thesis unfolding inv_def using 1 2 3 4 5 6 7 8 by blast
qed

lemma inv_post:
  assumes "inv s"
  shows "inv (snd (post_reschedule body rid now s))"
  using assms by (simp add: post_reschedule_def Let_def enqueue_def inv_processQueue inv_push_item)

lemma inv_step: "inv s \<Longrightarrow> inv (step e s)"
proof (cases e)
  case (TimerFired h)
  assume "inv s"
  then show ?thesis unfolding TimerFired by (rule inv_timer)
next
  case Exit
  assume "inv s"
  then show ?thesis
    unfolding Exit
    by (simp add: inv_def inv_flag_def inv_queue_def inv_running_def inv_resolved_def
        inv_started_def inv_order_def inv_pushed_def inv_after_def)
qed (simp_all add: inv_post inv_runner_returned inv_runner_threw inv_shutdown)

lemma inv_run: "inv s \<Longrightarrow> inv (run es s)"
  by (induction es arbitrary: s) (simp_all add: inv_step)

lemma inv_reachable: "inv (run es init)"
  by (rule inv_run [OF inv_init])






subsection \<open>Short runs, evaluated\<close>

lemma valid_body1: "valid_body body1"
  by (simp add: valid_body_def body1_def falsy_def str_of_def re_test_whole_def re_date_def
      re_time_def Lit_def Str_def Opt_def js_def is_digit_def is_space_def canonicalize_def)

lemma post_accepted:
  "valid_body body \<Longrightarrow> length (queue s) < MAX_QUEUE_SIZE \<Longrightarrow>
   post_reschedule body rid now s = (None, enqueue rid (params_of body) now s)"
  by (auto simp: post_reschedule_def valid_body_def)

lemma post_full:
  "valid_body body \<Longrightarrow> MAX_QUEUE_SIZE \<le> length (queue s) \<Longrightarrow>
   post_reschedule body rid now s =
     (Some (reject 429 rid (js ''Queue is full (50 pending). Try again later.'')), s)"
  by (auto simp: post_reschedule_def valid_body_def)

lemma post_body1:
  "length (queue s) < 50 \<Longrightarrow>
   snd (post_reschedule body1 rid now s) = processQueue now (push_item rid (params_of body1) now s)"
  by (simp add: post_accepted [OF valid_body1] MAX_QUEUE_SIZE_def enqueue_def)

lemmas run_eval = post_body1 push_item_eq processQueue_def runner_returned_def runner_threw_def
  try_block_eq catch_block_eq resume_def finally_block_def timer_callback_eq shutdown_eq
  init_def Let_def

lemma three_posts_state:
  "queue (run three_posts init) = [1, 2] \<and> running (run three_posts init) = [(0, 0)]
   \<and> timers (run three_posts init) = [0, 1, 2] \<and> nextRef (run three_posts init) = 3
   \<and> isRunning (run three_posts init)
   \<and> trace (run three_posts init) = [Pushed 0, Started 0, Pushed 1, Pushed 2]"
  by (simp add: three_posts_def run_eval)

lemma two_served_trace:
  "trace (run two_served init) =
     [Pushed 0, Started 0, Pushed 1, Settled 0,
      Resolved 0 (run_result (heap (run two_served init) 0) done_ok 2),
      Started 1, Settled 1, Resolved 1 (error_result (heap (run two_served init) 1) None)]"
  by (simp add: two_served_def run_eval round_seconds_def)


subsection \<open>What one operation changes\<close>

lemma processQueue_length: "length (queue (processQueue now s)) \<le> length (queue s)"
proof -
  have "length (skip_timed_out (heap s) (queue s)) \<le> length (queue s)"
    by (rule length_skip_timed_out)
  then show ?thesis
    by (cases "skip_timed_out (heap s) (queue s)") (auto simp: processQueue_def Let_def)
qed

lemma suffix_skip_timed_out: "suffix (skip_timed_out hp q) q"
  by (induction q) (auto intro: suffix_ConsI)

lemma processQueue_suffix: "suffix (queue (processQueue now s)) (queue s)"
proof (cases "skip_timed_out (heap s) (queue s)")
  case Nil
  then show ?thesis by (simp add: processQueue_def Let_def)
next
  case (Cons h rest)
  have "suffix (h # rest) (queue s)"
    using suffix_skip_timed_out [of "heap s" "queue s"] Cons by simp
  then have "suffix rest (queue s)" by (rule suffix_ConsD)
  then show ?thesis using Cons by (simp add: processQueue_def Let_def)
qed

lemma processQueue_counters:
  "totalProcessed (processQueue now s) = totalProcessed s
   \<and> totalSuccess (processQueue now s) = totalSuccess s
   \<and> totalFailed (processQueue now s) = totalFailed s"
  by (cases "skip_timed_out (heap s) (queue s)") (simp_all add: processQueue_def Let_def)


lemma finally_block_length: "length (queue (finally_block now s)) \<le> length (queue s)"
  using processQueue_length [of now "s\<lparr>isRunning := False, startedAt := None\<rparr>"]
  by (simp add: finally_block_def)

lemma step_shrinks:
  assumes "\<not> is_post e"
  shows "length (queue (step e s)) \<le> length (queue s)"
proof (cases e)
  case (Post body rid now)
  then show ?thesis using assms by simp
next
  case (TimerFired h)
  then show ?thesis by (auto simp: timer_callback_eq length_remove1)
next
  case (RunnerReturned h result now)
  show ?thesis
  proof (cases "map_of (running s) h")
    case None
    then show ?thesis using RunnerReturned by (simp add: runner_returned_def)
  next
    case (Some start)
    then show ?thesis
      using RunnerReturned
        finally_block_length [of now "try_block h start result now (resume h start s)"]
      by (simp add: runner_returned_def try_block_eq resume_def)
  qed
next
  case (RunnerThrew h err now)
  show ?thesis
  proof (cases "map_of (running s) h")
    case None
    then show ?thesis using RunnerThrew by (simp add: runner_threw_def)
  next
    case (Some start)
    then show ?thesis
      using RunnerThrew finally_block_length [of now "catch_block h err (resume h start s)"]
      by (simp add: runner_threw_def catch_block_eq resume_def)
  qed
next
  case Signal
  then show ?thesis by (simp add: shutdown_eq)
next
  case Exit
  then show ?thesis by simp
qed

lemma post_grows_below_max:
  "length (queue (step (Post body rid now) s)) \<le> max (length (queue s)) MAX_QUEUE_SIZE"
proof -
  have "length (queue (processQueue now (push_item rid (params_of body) now s)))
          \<le> Suc (length (queue s))"
    using processQueue_length [of now "push_item rid (params_of body) now s"]
    by (simp add: push_item_eq)
  then show ?thesis
    by (auto simp: post_reschedule_def enqueue_def)
qed

lemma step_queue_length:
  assumes "length (queue s) \<le> MAX_QUEUE_SIZE"
  shows "length (queue (step e s)) \<le> MAX_QUEUE_SIZE"
proof (cases "is_post e")
  case True
  then obtain body rid now where "e = Post body rid now" by (cases e) simp_all
  then show ?thesis using post_grows_below_max [of body rid now s] assms by simp
next
  case False
  then show ?thesis using step_shrinks [of e s] assms by simp
qed

lemma step_counters:
  assumes "totalProcessed s = totalSuccess s + totalFailed s"
  shows "totalProcessed (step e s) = totalSuccess (step e s) + totalFailed (step e s)"
proof (cases e)
  case (Post body rid now)
  then show ?thesis
    using assms
    by (simp add: post_reschedule_def enqueue_def processQueue_counters push_item_eq)
next
  case (TimerFired h)
  then show ?thesis using assms by (simp add: timer_callback_eq)
next
  case (RunnerReturned h result now)
  then show ?thesis
    using assms
    by (simp add: runner_returned_def finally_block_def processQueue_counters try_block_eq
        resume_def split: option.splits)
next
  case (RunnerThrew h msg now)
  then show ?thesis
    using assms
    by (simp add: runner_threw_def finally_block_def processQueue_counters catch_block_eq
        resume_def split: option.splits)
next
  case Signal
  then show ?thesis using assms by (simp add: shutdown_eq)
next
  case Exit
  then show ?thesis using assms by simp
qed

lemma run_exited: "exited s \<Longrightarrow> run es s = s"
  by (cases es) simp_all

lemma run_append: "run (es @ es') s = run es' (run es s)"
  by (induction es arbitrary: s) (simp_all add: run_exited)

lemma posts_queue:
  "n \<le> 50 \<Longrightarrow>
     queue (run (replicate (Suc n) (Post body1 rid now)) init) = [1..<Suc n]
     \<and> nextRef (run (replicate (Suc n) (Post body1 rid now)) init) = Suc n
     \<and> isRunning (run (replicate (Suc n) (Post body1 rid now)) init)
     \<and> \<not> exited (run (replicate (Suc n) (Post body1 rid now)) init)"
proof (induction n)
  case 0
  then show ?case by (simp add: run_eval)
next
  case (Suc n)
  let ?s = "run (replicate (Suc n) (Post body1 rid now)) init"
  have "replicate (Suc (Suc n)) (Post body1 rid now) =
      replicate (Suc n) (Post body1 rid now) @ [Post body1 rid now]"
    by (simp add: replicate_append_same)
  then have "run (replicate (Suc (Suc n)) (Post body1 rid now)) init =
      run [Post body1 rid now] ?s"
    by (simp only: run_append)
  moreover have "queue ?s = [1..<Suc n]" "nextRef ?s = Suc n" "isRunning ?s" "\<not> exited ?s"
    using Suc by simp_all
  ultimately show ?case using Suc.prems
    by (simp add: post_body1 push_item_eq processQueue_busy)
qed

lemma full_run_state:
  "queue (run full_run init) = [1..<51] \<and> \<not> exited (run full_run init)"
  using posts_queue [of 50 "js ''a1''" 0] by (simp add: full_run_def)

lemma full_run_rejects:
  "length (queue (run full_run init)) = 50
   \<and> queue (run (full_run @ [Post body1 (js ''d4'') 30]) init) = queue (run full_run init)"
  using full_run_state post_full [OF valid_body1, of "run full_run init" "js ''d4''" 30]
  by (simp add: run_append MAX_QUEUE_SIZE_def)

subsection \<open>The claims about the queue\<close>

text \<open>
  C8: in every state that the server can reach, the waiting list holds at most
  \<open>MAX_QUEUE_SIZE\<close>, that is 50, items. Only a request coming in can make the list
  longer, and it does so only while the list holds less than \<open>MAX_QUEUE_SIZE\<close> items; no
  other event makes the list longer.
\<close>

theorem C8_queue_bounded:
  "length (queue (run es init)) \<le> MAX_QUEUE_SIZE \<and> MAX_QUEUE_SIZE = 50
   \<and> length (queue (step (Post body rid now) s)) \<le> max (length (queue s)) MAX_QUEUE_SIZE
   \<and> (is_post e \<or> length (queue (step e s)) \<le> length (queue s))"
proof -
  have "length (queue s) \<le> MAX_QUEUE_SIZE \<Longrightarrow> length (queue (run es s)) \<le> MAX_QUEUE_SIZE" for s
    by (induction es arbitrary: s) (simp_all add: step_queue_length)
  then have "length (queue (run es init)) \<le> MAX_QUEUE_SIZE"
    by (simp add: init_def)
  then show ?thesis
    using post_grows_below_max [of body rid now s] step_shrinks [of e s]
    by (auto simp: MAX_QUEUE_SIZE_def)
qed

theorem C8_witness:
  "length (queue (run full_run init)) = 50
   \<and> length (queue (run (full_run @ [Post body1 (js ''d4'') 30]) init)) \<le> MAX_QUEUE_SIZE
   \<and> queue (run (full_run @ [Post body1 (js ''d4'') 30]) init) = queue (run full_run init)"
  using C8_queue_bounded [of "full_run @ [Post body1 (js ''d4'') 30]"] full_run_rejects
  by simp


text \<open>
  C10: in every state that the server can reach, \<open>totalProcessed\<close> is the sum of
  \<open>totalSuccess\<close> and \<open>totalFailed\<close>, and so are the numbers that the health endpoint
  reports.
\<close>

theorem C10_counters:
  "totalProcessed (run es init) = totalSuccess (run es init) + totalFailed (run es init)
   \<and> stats_totalProcessed (health (run es init)) =
       stats_totalSuccess (health (run es init)) + stats_totalFailed (health (run es init))"
proof -
  have "totalProcessed s = totalSuccess s + totalFailed s \<Longrightarrow>
        totalProcessed (run es s) = totalSuccess (run es s) + totalFailed (run es s)" for s
    by (induction es arbitrary: s) (simp_all add: step_counters)
  then show ?thesis by (simp add: init_def health_def)
qed

lemma two_served_counters:
  "totalProcessed (run two_served init) = 2 \<and> totalSuccess (run two_served init) = 1
   \<and> totalFailed (run two_served init) = 1"
  by (simp add: two_served_def run_eval done_ok_def)

theorem C10_witness:
  "totalProcessed (run two_served init) = 2
   \<and> totalSuccess (run two_served init) + totalFailed (run two_served init) = 2
   \<and> stats_totalProcessed (health (run two_served init)) =
       stats_totalSuccess (health (run two_served init)) + stats_totalFailed (health (run two_served init))"
  using C10_counters [of two_served] two_served_counters by simp

text \<open>
  C5: \<^verbatim>\<open>shutdown\<close> resolves every item of the waiting list, in order, with the
  failure "Server shutting down" and duration 0, and leaves the list empty; up to there
  the server still listens, and only then is \<^verbatim>\<open>server.close\<close> called.
\<close>

theorem C5_shutdown_drains:
  "queue (drain s) = [] \<and> listening (drain s) = listening s
   \<and> trace (drain s) = trace s @
        map (\<lambda>h. Resolved h \<lparr>success = False, requestId = item_id (heap s h), message = None,
                               error = Some (js ''Server shutting down''), duration = 0\<rparr>) (queue s)
   \<and> shutdown s = (drain s)\<lparr>listening := False, trace := trace (drain s) @ [ServerClosed],
                             exitArmed := True\<rparr>
   \<and> queue (shutdown s) = []"
  by (simp add: drain_eq shutdown_def shutdown_result_def)

theorem C5_witness:
  "queue (run three_posts init) = [1, 2]
   \<and> queue (step Signal (run three_posts init)) = []
   \<and> trace (step Signal (run three_posts init)) =
       [Pushed 0, Started 0, Pushed 1, Pushed 2,
        Resolved 1 \<lparr>success = False, requestId = js ''b2'', message = None,
                    error = Some (js ''Server shutting down''), duration = 0\<rparr>,
        Resolved 2 \<lparr>success = False, requestId = js ''c3'', message = None,
                    error = Some (js ''Server shutting down''), duration = 0\<rparr>,
        ServerClosed]"
  using C5_shutdown_drains [of "run three_posts init"]
  by (simp add: three_posts_def run_eval)

text \<open>
  C3: when the queue timer of an item fires in a state that the server can reach, and
  the item is still in the waiting list, the item is marked timed out and removed from
  the list, and its promise, not resolved before, is resolved with the failure
  "Request timed out waiting in queue. Try again later." and duration 0. When the item is
  no longer in the list, nothing changes but that the timer is spent.
\<close>

theorem C3_timer:
  assumes "s = run es init" and "h \<in> set (timers s)"
  shows "(h \<in> set (queue s) \<longrightarrow>
            step (TimerFired h) s =
              s\<lparr>timers := remove1 h (timers s),
                heap := (heap s)(h := (heap s h)\<lparr>timedOut := True\<rparr>),
                queue := remove1 h (queue s),
                trace := trace s @
                  [Resolved h \<lparr>success = False, requestId = item_id (heap s h), message = None,
                     error = Some (js ''Request timed out waiting in queue. Try again later.''),
                     duration = 0\<rparr>]\<rparr>
            \<and> h \<notin> set (remove1 h (queue s))
            \<and> resolutions h (trace s) = 0)
       \<and> (h \<notin> set (queue s) \<longrightarrow> step (TimerFired h) s = s\<lparr>timers := remove1 h (timers s)\<rparr>)"
proof -
  have "inv s" using assms(1) by (simp add: inv_reachable)
  then have qu: "inv_queue s" by (simp add: inv_def)
  then have "distinct (queue s)" by (simp add: inv_queue_def strict_sorted_distinct)
  then show ?thesis
    using qu assms(2) by (auto simp: inv_queue_def timer_callback_eq timeout_result_def)
qed

theorem C3_witness:
  "2 \<in> set (timers (run three_posts init)) \<and> 2 \<in> set (queue (run three_posts init))
   \<and> queue (step (TimerFired 2) (run three_posts init)) = [1]
   \<and> trace (step (TimerFired 2) (run three_posts init)) =
       [Pushed 0, Started 0, Pushed 1, Pushed 2,
        Resolved 2 \<lparr>success = False, requestId = js ''c3'', message = None,
           error = Some (js ''Request timed out waiting in queue. Try again later.''),
           duration = 0\<rparr>]
   \<and> 0 \<in> set (timers (run three_posts init)) \<and> 0 \<notin> set (queue (run three_posts init))
   \<and> trace (step (TimerFired 0) (run three_posts init)) = trace (run three_posts init)"
  using C3_timer [of "run three_posts init" three_posts 2]
    C3_timer [of "run three_posts init" three_posts 0]
  by (simp add: three_posts_def run_eval)

text \<open>
  C4: a request that passes the handler's validation while the waiting list holds
  \<open>MAX_QUEUE_SIZE\<close> items or more is answered at once with status 429 and the queue-full
  error, and the state is left as it was: no item, no timer, no promise. While the list is
  shorter, the request gets no reply yet; \<^verbatim>\<open>enqueue\<close> pushes a new item at the tail of
  the list and then calls \<^verbatim>\<open>processQueue\<close>, which can only take items from the head:
  the list is left with the new item last while a run is in flight.
\<close>

theorem C4_queue_full:
  assumes "valid_body body"
  shows "(MAX_QUEUE_SIZE \<le> length (queue s) \<longrightarrow>
            post_reschedule body rid now s =
              (Some \<lparr>status = 429, rejected_id = rid,
                      rejected_error = js ''Queue is full (50 pending). Try again later.''\<rparr>, s))
       \<and> (length (queue s) < MAX_QUEUE_SIZE \<longrightarrow>
            fst (post_reschedule body rid now s) = None
            \<and> snd (post_reschedule body rid now s) =
                processQueue now (push_item rid (params_of body) now s)
            \<and> queue (push_item rid (params_of body) now s) = queue s @ [nextRef s]
            \<and> nextRef s \<in> set (timers (snd (post_reschedule body rid now s)))
            \<and> suffix (queue (snd (post_reschedule body rid now s))) (queue s @ [nextRef s])
            \<and> (isRunning s \<longrightarrow>
                 queue (snd (post_reschedule body rid now s)) = queue s @ [nextRef s]))"
proof -
  let ?p = "push_item rid (params_of body) now s"
  have q: "queue ?p = queue s @ [nextRef s]" by (simp add: push_item_eq)
  have t: "nextRef s \<in> set (timers (processQueue now ?p))"
    by (cases "skip_timed_out (heap ?p) (queue ?p)")
       (simp_all add: processQueue_def Let_def push_item_eq)
  have sf: "suffix (queue (processQueue now ?p)) (queue s @ [nextRef s])"
    using processQueue_suffix [of now ?p] q by simp
  have busy: "isRunning s \<Longrightarrow> processQueue now ?p = ?p"
    by (rule processQueue_busy) (simp add: push_item_eq)
  show ?thesis
    using q t sf busy
    by (auto simp: post_full [OF assms] post_accepted [OF assms] enqueue_def reject_def)
qed

theorem C4_witness:
  "valid_body body1 \<and> MAX_QUEUE_SIZE \<le> length (queue (run full_run init))
   \<and> post_reschedule body1 (js ''d4'') 30 (run full_run init) =
       (Some \<lparr>status = 429, rejected_id = js ''d4'',
               rejected_error = js ''Queue is full (50 pending). Try again later.''\<rparr>,
        run full_run init)
   \<and> length (queue (run three_posts init)) < MAX_QUEUE_SIZE
   \<and> queue (snd (post_reschedule body1 (js ''d4'') 30 (run three_posts init))) = [1, 2, 3]"
proof -
  have small: "length (queue (run three_posts init)) < MAX_QUEUE_SIZE"
    using three_posts_state by (simp add: MAX_QUEUE_SIZE_def)
  have full: "MAX_QUEUE_SIZE \<le> length (queue (run full_run init))"
    by (simp add: full_run_state MAX_QUEUE_SIZE_def)
  have "isRunning (run three_posts init) \<longrightarrow>
      queue (snd (post_reschedule body1 (js ''d4'') 30 (run three_posts init))) =
      queue (run three_posts init) @ [nextRef (run three_posts init)]"
    using C4_queue_full [OF valid_body1, of "run three_posts init" "js ''d4''" 30] small
    by blast
  then have "queue (snd (post_reschedule body1 (js ''d4'') 30 (run three_posts init))) = [1, 2, 3]"
    using three_posts_state by simp
  moreover have "post_reschedule body1 (js ''d4'') 30 (run full_run init) =
       (Some \<lparr>status = 429, rejected_id = js ''d4'',
               rejected_error = js ''Queue is full (50 pending). Try again later.''\<rparr>,
        run full_run init)"
    using C4_queue_full [OF valid_body1, of "run full_run init" "js ''d4''" 30] full by blast
  ultimately show ?thesis using small full valid_body1 by blast
qed




text \<open>
  C2: take two requests of which the first was pushed before the second. When the runner
  has been started for both, then the run of the first was started, was over, and only
  then the run of the second was started; behind the start of the second there is neither
  a start nor an end of a run of the first. At most one run is in flight, and the busy
  flag is set exactly then.
\<close>

theorem C2_fifo:
  assumes "s = run es init"
    and "precedes (Pushed a) (Pushed b) (trace s)"
    and "Started a \<in> set (trace s)" and "Started b \<in> set (trace s)"
  shows "precedes (Started a) (Settled a) (trace s)
       \<and> precedes (Settled a) (Started b) (trace s)
       \<and> \<not> precedes (Started b) (Started a) (trace s)
       \<and> \<not> precedes (Started b) (Settled a) (trace s)
       \<and> a < b \<and> length (running s) \<le> 1 \<and> (isRunning s \<longleftrightarrow> running s \<noteq> [])"
proof -
  have i: "inv s" using assms(1) by (simp add: inv_reachable)
  then have fl: "inv_flag s" and ru: "inv_running s" and st: "inv_started s"
    and ord: "inv_order s" and pu: "inv_pushed s" and af: "inv_after s"
    by (simp_all add: inv_def)
  from pu assms(2) have ab: "a < b" by (simp add: inv_pushed_def)
  with af assms(4) have 3: "\<not> precedes (Started b) (Started a) (trace s)
      \<and> \<not> precedes (Started b) (Settled a) (trace s)"
    by (simp add: inv_after_def)
  from ab ord assms(3,4) have 2: "precedes (Settled a) (Started b) (trace s)"
    by (simp add: inv_order_def)
  then have "Settled a \<in> set (trace s)" by (simp add: precedes_in_set)
  with ru have "a \<notin> fst ` set (running s)" by (simp add: inv_running_def)
  with st assms(3) have 1: "precedes (Started a) (Settled a) (trace s)"
    unfolding inv_started_def by blast
  show ?thesis using 1 2 3 ab fl by (simp add: inv_flag_def)
qed

theorem C2_witness:
  "precedes (Pushed 0) (Pushed 1) (trace (run two_served init))
   \<and> Started 0 \<in> set (trace (run two_served init))
   \<and> Started 1 \<in> set (trace (run two_served init))
   \<and> precedes (Started 0) (Settled 0) (trace (run two_served init))
   \<and> precedes (Settled 0) (Started 1) (trace (run two_served init))
   \<and> \<not> precedes (Started 1) (Settled 0) (trace (run two_served init))"
  using C2_fifo [of "run two_served init" two_served 0 1]
  by (simp add: two_served_trace)

section \<open>Properties of the error normalizer\<close>

lemma replicate_numeral: "replicate (numeral k) x = x # replicate (pred_numeral k) x"
  by (simp add: numeral_eq_Suc)

lemmas re_eval = cleanErrorMessage_def strip_noise_def collapse_whitespace_def js_def Str_def
  Lit_def re_logs_def re_prefix_def re_timeout_def re_secure_def re_newlines_def re_spaces_def
  trim_def Plus_def Opt_def canonicalize_def is_space_def is_digit_def is_word_def
  replace_at_start_def match_here_def msg_timeout_def msg_login_def msg_page_load_def
  msg_search_def msg_form_def msg_fallback_def replicate_numeral

lemma spec_example_result: "cleanErrorMessage spec_example = msg_timeout"
  by (simp add: spec_example_def re_eval)

lemma spec_example_no_waitFor: "\<not> re_test True (Str ''waitFor'') spec_example"
  by (simp add: spec_example_def re_eval)

lemma msg_timeout_no_search: "\<not> re_test True (Str ''search'') msg_timeout"
  by (simp add: re_eval)

lemma msg_timeout_single_line: "single_line msg_timeout \<and> length msg_timeout = 82"
  by (simp add: single_line_def is_line_terminator_def msg_timeout_def js_def)

text \<open>
  C7, as stated: the normalizer maps the example input
  \<^verbatim>\<open>Timeout 30000ms exceeded waiting for locator('...Search...')\<close> to a single-line
  string of at most 200 characters that mentions the client search timing out. It does
  not: the search sentence needs \<^verbatim>\<open>waitFor\<close> in the raw text, which
  \<^verbatim>\<open>waiting for\<close> does not contain, so the result is not the search sentence and
  does not contain the word "search" at all.
\<close>

theorem C7_counterexample:
  "\<not> (single_line (cleanErrorMessage spec_example)
      \<and> length (cleanErrorMessage spec_example) \<le> 200
      \<and> re_test True (Str ''search'') (cleanErrorMessage spec_example))
   \<and> cleanErrorMessage spec_example \<noteq> msg_search"
  using msg_timeout_no_search
  by (simp add: spec_example_result) (simp add: msg_timeout_def msg_search_def js_def)

text \<open>
  C7, amended: on the example input the normalizer returns the generic timeout sentence
  "Operation timed out. SimplePractice may be slow or unresponsive. Please try again.",
  a single line of 82 characters.
\<close>

theorem C7_generic_timeout:
  "cleanErrorMessage spec_example = msg_timeout
   \<and> single_line (cleanErrorMessage spec_example)
   \<and> length (cleanErrorMessage spec_example) \<le> 200"
  using msg_timeout_single_line by (simp add: spec_example_result)

lemma long_timeout_result: "cleanErrorMessage long_timeout = msg_timeout"
  by (simp add: long_timeout_def re_eval)

lemma long_blanks_result:
  "cleanErrorMessage long_blanks = replicate 100 120 @ [32] @ replicate 99 120"
  by (simp add: long_blanks_def re_eval)

lemma long_no_upcoming_result: "cleanErrorMessage long_no_upcoming = long_no_upcoming"
  by (simp add: long_no_upcoming_def re_eval)

lemma long_plain_facts:
  "\<not> category_matched long_plain \<and> collapse_whitespace (strip_noise long_plain) = long_plain"
  by (simp add: long_plain_def category_matched_def re_eval)

text \<open>
  C6, as stated: for every input of more than 200 characters the result has at most 203
  characters and ends with the ellipsis. Three inputs of more than 200 characters refute
  it: a timeout message is replaced by a fixed sentence, a message with a double blank
  is collapsed to exactly 200 characters and returned as it is, and a message with
  "no upcoming appointments" is returned unchanged, 243 characters long.
\<close>

theorem C6_counterexample:
  "200 < length long_timeout
   \<and> \<not> (length (cleanErrorMessage long_timeout) \<le> 203
        \<and> suffix (js ''...'') (cleanErrorMessage long_timeout))
   \<and> 200 < length long_blanks
   \<and> \<not> (length (cleanErrorMessage long_blanks) \<le> 203
        \<and> suffix (js ''...'') (cleanErrorMessage long_blanks))
   \<and> 200 < length long_no_upcoming
   \<and> \<not> (length (cleanErrorMessage long_no_upcoming) \<le> 203
        \<and> suffix (js ''...'') (cleanErrorMessage long_no_upcoming))"
  unfolding long_timeout_result long_blanks_result long_no_upcoming_result
  by (simp add: long_timeout_def long_blanks_def long_no_upcoming_def msg_timeout_def js_def
      suffix_to_prefix replicate_numeral)

text \<open>
  C6, amended: when no category pattern matches, the result has at most 203 characters;
  and when moreover the message is still longer than 200 characters after the log block
  and the prefix are stripped and white space is collapsed, the result is its first 200
  characters followed by the ellipsis, 203 characters in all.
\<close>

theorem C6_cap:
  "\<not> category_matched raw \<Longrightarrow>
     length (cleanErrorMessage raw) \<le> 203
     \<and> (200 < length (collapse_whitespace (strip_noise raw)) \<longrightarrow>
          cleanErrorMessage raw = take 200 (collapse_whitespace (strip_noise raw)) @ js ''...''
          \<and> length (cleanErrorMessage raw) = 203
          \<and> suffix (js ''...'') (cleanErrorMessage raw))"
  by (auto simp: cleanErrorMessage_def category_matched_def Let_def msg_fallback_def js_def
      suffix_def)

theorem C6_cap_witness:
  "\<not> category_matched long_plain
   \<and> 200 < length (collapse_whitespace (strip_noise long_plain))
   \<and> length (cleanErrorMessage long_plain) = 203
   \<and> cleanErrorMessage long_plain = replicate 200 120 @ js ''...''"
  using C6_cap [of long_plain] long_plain_facts
  by (simp add: long_plain_def js_def)

end
